theory Spec2Isabelle
  imports Complex_Main "HOL-Library.Sublist"
begin

section \<open>Argumentative metrics: the embedding\<close>

text \<open>
  The module \<^verbatim>\<open>src/metrics/argumentative_metrics.py\<close> is pure Python over lists,
  dictionaries and numbers. Every exception the interpreter can raise on a path of the
  module is a branch of the model; results are \<open>py_exception + 'a\<close>.
  Python floats are modelled by exact rationals: the metrics only add, divide and
  compare them.
\<close>

subsection \<open>Exceptions and list lookup\<close>

text \<open>
  \<open>ValueError\<close> is what \<^verbatim>\<open>list.index\<close> raises on a missing element,
  \<open>ZeroDivisionError\<close> what the operator \<^verbatim>\<open>/\<close> raises on a zero divisor,
  \<open>IndexError\<close> and \<open>KeyError\<close> what a list and a dict subscript raise.
  \<open>DomainError\<close> is the error kind the specification names for degenerate input;
  no statement of the module raises it.
\<close>

datatype py_exception = ValueError | ZeroDivisionError | IndexError | KeyError | DomainError

text \<open>\<^verbatim>\<open>args.index(x)\<close>: the position of the first element equal to \<open>x\<close>.\<close>

fun list_index :: "'a list \<Rightarrow> 'a \<Rightarrow> py_exception + nat" where
  "list_index [] x = Inl ValueError"
| "list_index (y # ys) x =
     (if y = x then Inr 0
      else case list_index ys x of Inl e \<Rightarrow> Inl e | Inr i \<Rightarrow> Inr (Suc i))"

text \<open>The dictionary \<^verbatim>\<open>{ind: [] for ind in range(num_nodes)}\<close>.\<close>

type_synonym framework = "nat \<rightharpoonup> nat list"

definition empty_framework :: "nat \<Rightarrow> framework" where
  "empty_framework num_nodes = (\<lambda>ind. if ind < num_nodes then Some [] else None)"

subsection \<open>Cycle detection\<close>

text \<open>
  \<^verbatim>\<open>_dfs_cycle(arg_framework, start, visited, stack)\<close> mutates the two flag lists and
  returns a boolean; the model returns the boolean with both lists. \<open>dfs_succs\<close> is
  the \<^verbatim>\<open>for arg in arg_framework[start]\<close> loop together with the two statements after
  it. A \<^verbatim>\<open>return True\<close> inside the loop leaves \<^verbatim>\<open>stack[start]\<close> set.
\<close>

type_synonym dfs_result = "py_exception + (bool \<times> bool list \<times> bool list)"

function dfs_cycle :: "framework \<Rightarrow> nat \<Rightarrow> bool list \<Rightarrow> bool list \<Rightarrow> dfs_result"
  and dfs_succs :: "framework \<Rightarrow> nat \<Rightarrow> nat list \<Rightarrow> bool list \<Rightarrow> bool list \<Rightarrow> dfs_result"
where
  "dfs_cycle af start visited stack =
     (if \<not> start < length visited then Inl IndexError
      else if \<not> start < length stack then Inl IndexError
      else case af start of
             None \<Rightarrow> Inl KeyError
           | Some succs \<Rightarrow> dfs_succs af start succs (visited[start := True]) (stack[start := True]))"
| "dfs_succs af start [] visited stack = Inr (False, visited, stack[start := False])"
| "dfs_succs af start (arg # rest) visited stack =
     (if \<not> arg < length visited then Inl IndexError
      else if \<not> visited ! arg then
        (case dfs_cycle af arg visited stack of
           Inl e \<Rightarrow> Inl e
         | Inr (found, visited', stack') \<Rightarrow>
             if found then Inr (True, visited', stack')
             else dfs_succs af start rest visited' stack')
      else if \<not> arg < length stack then Inl IndexError
      else if stack ! arg then Inr (True, visited, stack)
      else dfs_succs af start rest visited stack)"
  by pat_completeness auto

text \<open>The number of nodes not yet visited: what decreases along the recursion.\<close>

definition unvisited :: "bool list \<Rightarrow> nat" where
  "unvisited visited = length (filter Not visited)"

subsection \<open>Circularity\<close>

text \<open>
  The two edge loops of \<^verbatim>\<open>compute_circularity\<close> have the same body:
  \<^verbatim>\<open>af[args.index(first)].append(args.index(second))\<close>, where the pair is
  (attacker, attacked) for an attack and (supported, supporter) for a support.
\<close>

fun add_edges :: "'a list \<Rightarrow> ('a \<times> 'a) list \<Rightarrow> framework \<Rightarrow> py_exception + framework" where
  "add_edges args [] af = Inr af"
| "add_edges args ((src, dst) # rest) af =
     (case list_index args src of
        Inl e \<Rightarrow> Inl e
      | Inr i \<Rightarrow>
          (case af i of
             None \<Rightarrow> Inl KeyError
           | Some succs \<Rightarrow>
               (case list_index args dst of
                  Inl e \<Rightarrow> Inl e
                | Inr j \<Rightarrow> add_edges args rest (af(i \<mapsto> succs @ [j])))))"

text \<open>The loop \<^verbatim>\<open>for node in range(num_nodes)\<close> with its counter \<open>score\<close>.\<close>

fun roots_loop :: "framework \<Rightarrow> nat list \<Rightarrow> bool list \<Rightarrow> bool list \<Rightarrow> nat \<Rightarrow> py_exception + nat" where
  "roots_loop af [] visited stack score = Inr score"
| "roots_loop af (node # nodes) visited stack score =
     (if \<not> node < length visited then Inl IndexError
      else if \<not> visited ! node then
        (case dfs_cycle af node visited stack of
           Inl e \<Rightarrow> Inl e
         | Inr (found, visited', stack') \<Rightarrow>
             roots_loop af nodes visited' stack' (if found then score + 1 else score))
      else roots_loop af nodes visited stack score)"

definition compute_circularity ::
  "'a list \<Rightarrow> ('a \<times> 'a) list \<Rightarrow> ('a \<times> 'a) list \<Rightarrow> py_exception + rat" where
  "compute_circularity args attack_relations support_relations =
     (let num_nodes = length args in
      case add_edges args attack_relations (empty_framework num_nodes) of
        Inl e \<Rightarrow> Inl e
      | Inr af1 \<Rightarrow>
          (case add_edges args support_relations af1 of
             Inl e \<Rightarrow> Inl e
           | Inr af \<Rightarrow>
               (case roots_loop af [0..<num_nodes]
                       (replicate num_nodes False) (replicate num_nodes False) 0 of
                  Inl e \<Rightarrow> Inl e
                | Inr score \<Rightarrow>
                    if num_nodes = 0 then Inl ZeroDivisionError
                    else Inr (of_nat score / of_nat num_nodes))))"

subsection \<open>Dialectical acceptability\<close>

text \<open>
  The loop over \<^verbatim>\<open>attack_relations\<close>: it fills the dictionary of attackers and sets
  the flag \<^verbatim>\<open>is_yhat_attacked\<close>.
\<close>

fun build_attacks ::
  "'a list \<Rightarrow> ('a \<times> 'a) list \<Rightarrow> 'a list \<Rightarrow> framework \<Rightarrow> bool \<Rightarrow> py_exception + (framework \<times> bool)" where
  "build_attacks args [] args_y_hat af is_yhat_attacked = Inr (af, is_yhat_attacked)"
| "build_attacks args ((attacker, attacked) # rest) args_y_hat af is_yhat_attacked =
     (case list_index args attacked of
        Inl e \<Rightarrow> Inl e
      | Inr i \<Rightarrow>
          (case af i of
             None \<Rightarrow> Inl KeyError
           | Some attackers \<Rightarrow>
               (case list_index args attacker of
                  Inl e \<Rightarrow> Inl e
                | Inr j \<Rightarrow>
                    build_attacks args rest args_y_hat (af(i \<mapsto> attackers @ [j]))
                      (if attacked \<in> set args_y_hat then True else is_yhat_attacked))))"

text \<open>The inner loop \<^verbatim>\<open>for a_j in arg_i_attackers\<close> with its counter \<open>score_a_i\<close>.\<close>

fun count_attacked :: "framework \<Rightarrow> nat list \<Rightarrow> nat \<Rightarrow> py_exception + nat" where
  "count_attacked af [] score_a_i = Inr score_a_i"
| "count_attacked af (a_j # rest) score_a_i =
     (case af a_j of
        None \<Rightarrow> Inl KeyError
      | Some attackers \<Rightarrow>
          count_attacked af rest (if attackers \<noteq> [] then score_a_i + 1 else score_a_i + 0))"

text \<open>The outer loop \<^verbatim>\<open>for arg_i in args_y_hat\<close> with its accumulator \<open>score\<close>.\<close>

fun score_loop :: "'a list \<Rightarrow> framework \<Rightarrow> 'a list \<Rightarrow> rat \<Rightarrow> py_exception + rat" where
  "score_loop args af [] score = Inr score"
| "score_loop args af (arg_i # rest) score =
     (case list_index args arg_i of
        Inl e \<Rightarrow> Inl e
      | Inr i \<Rightarrow>
          (case af i of
             None \<Rightarrow> Inl KeyError
           | Some arg_i_attackers \<Rightarrow>
               if arg_i_attackers \<noteq> [] then
                 (case count_attacked af arg_i_attackers 0 of
                    Inl e \<Rightarrow> Inl e
                  | Inr score_a_i \<Rightarrow>
                      score_loop args af rest
                        (score + of_nat score_a_i / of_nat (length arg_i_attackers)))
               else score_loop args af rest (score + 1)))"

definition compute_dialectical_acceptability ::
  "'a list \<Rightarrow> ('a \<times> 'a) list \<Rightarrow> 'a list \<Rightarrow> py_exception + rat" where
  "compute_dialectical_acceptability args attack_relations args_y_hat =
     (let num_nodes = length args in
      case build_attacks args attack_relations args_y_hat (empty_framework num_nodes) False of
        Inl e \<Rightarrow> Inl e
      | Inr (af_attacks, is_yhat_attacked) \<Rightarrow>
          if \<not> is_yhat_attacked then Inr 1
          else
            (case score_loop args af_attacks args_y_hat 0 of
               Inl e \<Rightarrow> Inl e
             | Inr score \<Rightarrow>
                 if num_nodes = 0 then Inl ZeroDivisionError
                 else Inr (score / of_nat num_nodes)))"

subsection \<open>Dialectical faithfulness\<close>

text \<open>An argument is a dictionary with the keys \<^verbatim>\<open>'id'\<close>, \<^verbatim>\<open>'conclusion'\<close>, \<^verbatim>\<open>'strength'\<close>.\<close>

record argument =
  id' :: int
  conclusion :: string
  strength :: rat

definition get_arguments_for_conclusion :: "argument list \<Rightarrow> string \<Rightarrow> argument list" where
  "get_arguments_for_conclusion args c = filter (\<lambda>arg. conclusion arg = c) args"

definition get_attackers :: "argument list \<Rightarrow> (int \<times> int) list \<Rightarrow> int \<Rightarrow> argument list" where
  "get_attackers args attack_relations arg_id =
     filter (\<lambda>attacker. (id' attacker, arg_id) \<in> set attack_relations) args"

definition get_dialectical_strength :: "argument \<Rightarrow> rat" where
  "get_dialectical_strength a = strength a"

text \<open>
  The three branches are nested loops that return \<open>False\<close> at the first violating
  attacker. \<open>any_attacker\<close> is the inner loop: \<open>True\<close> when it reaches the
  \<^verbatim>\<open>return False\<close>.
\<close>

fun any_attacker :: "(argument \<Rightarrow> bool) \<Rightarrow> argument list \<Rightarrow> bool" where
  "any_attacker violates [] = False"
| "any_attacker violates (attacker # rest) =
     (if violates attacker then True else any_attacker violates rest)"

fun check_top :: "argument list \<Rightarrow> (int \<times> int) list \<Rightarrow> argument list \<Rightarrow> bool" where
  "check_top args attack_relations [] = True"
| "check_top args attack_relations (arg # rest) =
     (if any_attacker
           (\<lambda>attacker. get_dialectical_strength attacker \<ge> get_dialectical_strength arg)
           (get_attackers args attack_relations (id' arg))
      then False
      else check_top args attack_relations rest)"

fun check_high :: "argument list \<Rightarrow> (int \<times> int) list \<Rightarrow> argument list \<Rightarrow> bool" where
  "check_high args attack_relations [] = True"
| "check_high args attack_relations (arg # rest) =
     (if any_attacker
           (\<lambda>attacker. get_dialectical_strength attacker > get_dialectical_strength arg)
           (get_attackers args attack_relations (id' arg))
      then False
      else check_high args attack_relations rest)"

fun check_low :: "argument list \<Rightarrow> (int \<times> int) list \<Rightarrow> argument list \<Rightarrow> bool" where
  "check_low args attack_relations [] = True"
| "check_low args attack_relations (arg # rest) =
     (if get_dialectical_strength arg > 1 / 2 then
        (if any_attacker
              (\<lambda>attacker. get_dialectical_strength attacker \<le> get_dialectical_strength arg)
              (get_attackers args attack_relations (id' arg))
         then False
         else check_low args attack_relations rest)
      else check_low args attack_relations rest)"

definition compute_dialectical_faithfulness ::
  "argument list \<Rightarrow> (int \<times> int) list \<Rightarrow> (int \<times> int) list \<Rightarrow> argument list \<Rightarrow>
     rat \<Rightarrow> rat \<Rightarrow> string \<Rightarrow> rat \<Rightarrow> bool" where
  "compute_dialectical_faithfulness args attack_relations support_relations args_y_hat
       top_confidence high_confidence model_predicted_label model_confidence =
     (let predicted_label = model_predicted_label;
          confidence = model_confidence;
          arguments_for_predicted = filter (\<lambda>arg. conclusion arg = predicted_label) args_y_hat
      in if confidence \<ge> top_confidence then check_top args attack_relations arguments_for_predicted
         else if confidence \<ge> high_confidence then
           check_high args attack_relations arguments_for_predicted
         else check_low args attack_relations arguments_for_predicted)"

subsection \<open>Notions used to state the properties\<close>

text \<open>
  The position \<^verbatim>\<open>args.index(x)\<close> of an element known to be in the list, and the
  referential integrity of an edge list: both ends of every pair occur in \<open>args\<close>.
\<close>

definition first_index :: "'a list \<Rightarrow> 'a \<Rightarrow> nat" where
  "first_index args x = length (takeWhile (\<lambda>y. y \<noteq> x) args)"

definition edges_known :: "'a list \<Rightarrow> ('a \<times> 'a) list \<Rightarrow> bool" where
  "edges_known args edges = list_all (\<lambda>e. fst e \<in> set args \<and> snd e \<in> set args) edges"

text \<open>
  The directed graph of the circularity metric, stated on the edge lists: node \<open>i\<close> has
  an edge to the second component of every pair whose first component is node \<open>i\<close>, the
  attack pairs (attacker, attacked) before the support pairs (supported, supporter), each
  in list order.
\<close>

definition edge_targets :: "'a list \<Rightarrow> ('a \<times> 'a) list \<Rightarrow> nat \<Rightarrow> nat list" where
  "edge_targets args edges i =
     map (\<lambda>e. first_index args (snd e)) (filter (\<lambda>e. first_index args (fst e) = i) edges)"

definition combined_framework ::
  "'a list \<Rightarrow> ('a \<times> 'a) list \<Rightarrow> ('a \<times> 'a) list \<Rightarrow> framework" where
  "combined_framework args attack_relations support_relations =
     (\<lambda>i. if i < length args
          then Some (edge_targets args attack_relations i @ edge_targets args support_relations i)
          else None)"

text \<open>
  A well-formed dictionary for \<open>n\<close> nodes: every node below \<open>n\<close> is a key and every
  listed neighbour is a node below \<open>n\<close>.
\<close>

definition framework_ok :: "nat \<Rightarrow> framework \<Rightarrow> bool" where
  "framework_ok n af =
     list_all (\<lambda>i. case af i of None \<Rightarrow> False | Some succs \<Rightarrow> list_all (\<lambda>j. j < n) succs) [0..<n]"

text \<open>
  The dictionary of attackers of the acceptability metric, stated on the edge list: the
  entry of node \<open>i\<close> lists the attacker of every attack pair whose attacked member is
  node \<open>i\<close>.
\<close>

definition attackers_framework :: "'a list \<Rightarrow> ('a \<times> 'a) list \<Rightarrow> framework" where
  "attackers_framework args attack_relations =
     (\<lambda>i. if i < length args
          then Some (edge_targets args (map prod.swap attack_relations) i)
          else None)"

text \<open>
  The top-level invocations of the cycle detector: the nodes are taken in the given order,
  a node already visited starts none, and every other node starts one, recorded with the
  node and the boolean it returned.
\<close>

fun root_invocations ::
  "framework \<Rightarrow> nat list \<Rightarrow> bool list \<Rightarrow> bool list \<Rightarrow> (nat \<times> bool) list" where
  "root_invocations af [] visited stack = []"
| "root_invocations af (node # nodes) visited stack =
     (if visited ! node then root_invocations af nodes visited stack
      else case dfs_cycle af node visited stack of
             Inl e \<Rightarrow> []
           | Inr (found, visited', stack') \<Rightarrow>
               (node, found) # root_invocations af nodes visited' stack')"

text \<open>
  The edges of a dictionary, and the nodes from which a cycle can be reached: some node
  \<open>x\<close> reachable from \<open>r\<close> lies on a cycle.
\<close>

definition edges_of :: "framework \<Rightarrow> (nat \<times> nat) set" where
  "edges_of af = {(i, j). \<exists>succs. af i = Some succs \<and> j \<in> set succs}"

definition reaches_cycle :: "framework \<Rightarrow> nat \<Rightarrow> bool" where
  "reaches_cycle af r = (\<exists>x. (r, x) \<in> (edges_of af)\<^sup>* \<and> (x, x) \<in> (edges_of af)\<^sup>+)"

text \<open>
  The invariant of the flag lists between the steps of the cycle detector: a node on the
  stack is visited, and no cycle can be reached from a visited node that is not on the
  stack. A node on the stack reaches a cycle or reaches the node being explored. The two
  postconditions are those of a call that found a cycle and of a successor loop that
  found none.
\<close>

definition dfs_inv :: "nat \<Rightarrow> framework \<Rightarrow> bool list \<Rightarrow> bool list \<Rightarrow> bool" where
  "dfs_inv n af visited stack =
     (length visited = n \<and> length stack = n
      \<and> (\<forall>i < n. stack ! i \<longrightarrow> visited ! i)
      \<and> (\<forall>i < n. visited ! i \<and> \<not> stack ! i \<longrightarrow> \<not> reaches_cycle af i))"

definition on_stack_ok :: "nat \<Rightarrow> framework \<Rightarrow> bool list \<Rightarrow> nat \<Rightarrow> bool" where
  "on_stack_ok n af stack cur =
     (\<forall>i < n. stack ! i \<longrightarrow> reaches_cycle af i \<or> (i, cur) \<in> (edges_of af)\<^sup>*)"

definition found_post ::
  "nat \<Rightarrow> framework \<Rightarrow> bool list \<Rightarrow> bool list \<Rightarrow> bool list \<Rightarrow> nat \<Rightarrow> bool" where
  "found_post n af stack visited' stack' start =
     (dfs_inv n af visited' stack' \<and> reaches_cycle af start
      \<and> (\<forall>i < n. stack ! i \<longrightarrow> stack' ! i)
      \<and> (\<forall>i < n. stack' ! i \<longrightarrow> stack ! i \<or> reaches_cycle af i))"

definition loop_post ::
  "nat \<Rightarrow> framework \<Rightarrow> bool list \<Rightarrow> bool list \<Rightarrow> bool list \<Rightarrow> nat \<Rightarrow> nat list \<Rightarrow> bool" where
  "loop_post n af stack visited' stack' start succs =
     (length visited' = n \<and> (\<forall>i < n. stack ! i \<longrightarrow> visited' ! i)
      \<and> stack' = stack[start := False]
      \<and> (\<forall>j \<in> set succs. \<not> stack ! j \<and> visited' ! j)
      \<and> (\<forall>i < n. i \<noteq> start \<and> visited' ! i \<and> \<not> stack ! i \<longrightarrow> \<not> reaches_cycle af i))"

text \<open>
  The attackers of an argument, one entry per attack pair, and the local score of the
  acceptability metric stated on identifiers.
\<close>

definition attackers_of :: "('a \<times> 'a) list \<Rightarrow> 'a \<Rightarrow> 'a list" where
  "attackers_of attack_relations a = map fst (filter (\<lambda>e. snd e = a) attack_relations)"

definition local_score :: "('a \<times> 'a) list \<Rightarrow> 'a \<Rightarrow> rat" where
  "local_score attack_relations a =
     (if attackers_of attack_relations a = [] then 1
      else of_nat (length (filter (\<lambda>x. attackers_of attack_relations x \<noteq> [])
                              (attackers_of attack_relations a)))
           / of_nat (length (attackers_of attack_relations a)))"

section \<open>Termination of the cycle detector\<close>

lemma unvisited_update_le: "unvisited (vs[i := True]) \<le> unvisited vs"
  unfolding unvisited_def
  by (induction vs arbitrary: i) (auto split: nat.splits)

lemma unvisited_update_less:
  "i < length vs \<Longrightarrow> \<not> vs ! i \<Longrightarrow> unvisited (vs[i := True]) < unvisited vs"
  unfolding unvisited_def
proof (induction vs arbitrary: i)
  case Nil
  then show ?case by simp
next
  case (Cons v vs)
  show ?case
  proof (cases i)
    case 0
    with Cons.prems show ?thesis by simp
  next
    case (Suc j)
    with Cons.prems Cons.IH[of j] show ?thesis by simp
  qed
qed

text \<open>
  The loop continues with the lists a recursive call returned, so termination needs to
  know that a call never unmarks a visited node; this is proved on the domain of the
  function first.
\<close>

lemma dfs_unvisited_partial:
  "dfs_cycle_dfs_succs_dom (Inl (af, start, visited, stack)) \<Longrightarrow>
     dfs_cycle af start visited stack = Inr (b, visited', stack') \<Longrightarrow>
     unvisited visited' \<le> unvisited visited"
  "dfs_cycle_dfs_succs_dom (Inr (af, start, succs, visited, stack)) \<Longrightarrow>
     dfs_succs af start succs visited stack = Inr (b, visited', stack') \<Longrightarrow>
     unvisited visited' \<le> unvisited visited"
proof (induction af start visited stack and af start succs visited stack
    arbitrary: b visited' stack' and b visited' stack' rule: dfs_cycle_dfs_succs.pinduct)
  case (1 af start visited stack)
  from "1.prems" "1.hyps" obtain succs where s: "af start = Some succs"
    and r: "dfs_succs af start succs (visited[start := True]) (stack[start := True])
              = Inr (b, visited', stack')"
    and lt: "start < length visited" "start < length stack"
    by (auto simp: dfs_cycle.psimps split: if_splits option.splits)
  from "1.IH"[OF _ _ s r] lt
  have "unvisited visited' \<le> unvisited (visited[start := True])" by simp
  with unvisited_update_le[of visited start] show ?case by simp
next
  case (2 af start visited stack)
  then show ?case by (simp add: dfs_succs.psimps)
next
  case (3 af start arg rest visited stack)
  show ?case
  proof (cases "visited ! arg")
    case True
    show ?thesis
    proof (cases "stack ! arg")
      case st: True
      with True "3.prems" "3.hyps" show ?thesis
        by (auto simp: dfs_succs.psimps split: if_splits)
    next
      case st: False
      with True "3.prems" "3.hyps" have lt: "arg < length visited" "arg < length stack"
        and r: "dfs_succs af start rest visited stack = Inr (b, visited', stack')"
        by (auto simp: dfs_succs.psimps split: if_splits)
      from "3.IH"(3)[OF _ _ _ _ r] lt True st show ?thesis by simp
    qed
  next
    case False
    with "3.prems" "3.hyps" have lt: "arg < length visited"
      by (auto simp: dfs_succs.psimps split: if_splits)
    from False lt "3.prems" "3.hyps" obtain f v1 s1 where
      c: "dfs_cycle af arg visited stack = Inr (f, v1, s1)"
      by (auto simp: dfs_succs.psimps split: if_splits sum.splits)
    from "3.IH"(1)[OF _ _ c] lt False have le1: "unvisited v1 \<le> unvisited visited" by simp
    show ?thesis
    proof (cases f)
      case True
      with c False lt "3.prems" "3.hyps" have "visited' = v1" by (simp add: dfs_succs.psimps)
      with le1 show ?thesis by simp
    next
      case ff: False
      with c False lt "3.prems" "3.hyps"
      have r: "dfs_succs af start rest v1 s1 = Inr (b, visited', stack')"
        by (simp add: dfs_succs.psimps)
      have "unvisited visited' \<le> unvisited v1"
        using "3.IH"(2)[OF _ _ c _ _ _ r] lt False ff by simp
      with le1 show ?thesis by simp
    qed
  qed
qed

termination dfs_cycle
proof (relation "measures
    [\<lambda>x. case x of
        Inl (af, start, visited, stack) \<Rightarrow> unvisited (visited[start := True])
      | Inr (af, start, succs, visited, stack) \<Rightarrow> unvisited visited,
     \<lambda>x. case x of Inl _ \<Rightarrow> 1 | Inr _ \<Rightarrow> 0,
     \<lambda>x. case x of Inl _ \<Rightarrow> 0 | Inr (af, start, succs, visited, stack) \<Rightarrow> length succs]",
    goal_cases)
  case 1
  show ?case by simp
next
  case 2
  then show ?case by simp
next
  case 3
  then show ?case by (simp add: unvisited_update_less)
next
  case (4 af start arg rest visited stack x y z xa ya)
  with dfs_unvisited_partial(1)[of af arg visited stack] show ?case
    by (auto simp: le_less)
next
  case 5
  then show ?case by simp
qed

section \<open>Lookup and edge insertion\<close>

lemma list_index_member: "x \<in> set args \<Longrightarrow> list_index args x = Inr (first_index args x)"
  by (induction args) (auto simp: first_index_def)

lemma list_index_missing: "x \<notin> set args \<Longrightarrow> list_index args x = Inl ValueError"
  by (induction args) auto

lemma first_index_less: "x \<in> set args \<Longrightarrow> first_index args x < length args"
  unfolding first_index_def by (induction args) auto

lemma nth_first_index: "x \<in> set args \<Longrightarrow> args ! first_index args x = x"
  unfolding first_index_def by (induction args) auto

lemma first_index_eq_iff:
  "x \<in> set args \<Longrightarrow> y \<in> set args \<Longrightarrow> first_index args x = first_index args y \<longleftrightarrow> x = y"
  by (metis nth_first_index)

lemma add_edges_append:
  "add_edges args (xs @ ys) af =
     (case add_edges args xs af of Inl e \<Rightarrow> Inl e | Inr af' \<Rightarrow> add_edges args ys af')"
proof (induction xs arbitrary: af)
  case Nil
  show ?case by simp
next
  case (Cons e xs)
  obtain src dst where e: "e = (src, dst)" by (cases e)
  show ?case
  proof (cases "list_index args src")
    case Inl
    then show ?thesis by (simp add: e)
  next
    case i: (Inr i)
    show ?thesis
    proof (cases "af i")
      case None
      with i show ?thesis by (simp add: e)
    next
      case (Some succs)
      show ?thesis
      proof (cases "list_index args dst")
        case Inl
        with i Some show ?thesis by (simp add: e)
      next
        case (Inr j)
        have "add_edges args ((e # xs) @ ys) af = add_edges args (xs @ ys) (af(i \<mapsto> succs @ [j]))"
          by (simp add: e i Some Inr)
        also have "\<dots> = (case add_edges args xs (af(i \<mapsto> succs @ [j])) of
                            Inl e \<Rightarrow> Inl e | Inr af' \<Rightarrow> add_edges args ys af')"
          by (rule Cons.IH)
        also have "add_edges args xs (af(i \<mapsto> succs @ [j])) = add_edges args (e # xs) af"
          by (simp add: e i Some Inr)
        finally show ?thesis .
      qed
    qed
  qed
qed

lemma compute_circularity_joined:
  "compute_circularity args atk supp =
     (case add_edges args (atk @ supp) (empty_framework (length args)) of
        Inl e \<Rightarrow> Inl e
      | Inr af \<Rightarrow>
          (case roots_loop af [0..<length args]
                  (replicate (length args) False) (replicate (length args) False) 0 of
             Inl e \<Rightarrow> Inl e
           | Inr score \<Rightarrow>
               if length args = 0 then Inl ZeroDivisionError
               else Inr (of_nat score / of_nat (length args))))"
  by (simp add: compute_circularity_def Let_def add_edges_append split: sum.splits)




lemma framework_okD:
  "framework_ok n af \<Longrightarrow> i < n \<Longrightarrow> \<exists>succs. af i = Some succs \<and> (\<forall>j \<in> set succs. j < n)"
  by (force simp: framework_ok_def list_all_iff split: option.splits)

lemma framework_okI:
  "(\<And>i. i < n \<Longrightarrow> \<exists>succs. af i = Some succs \<and> (\<forall>j \<in> set succs. j < n)) \<Longrightarrow> framework_ok n af"
  by (fastforce simp: framework_ok_def list_all_iff split: option.splits)

lemma edge_targets_Nil [simp]: "edge_targets args [] i = []"
  by (simp add: edge_targets_def)

lemma edge_targets_Cons:
  "edge_targets args ((src, dst) # rest) i =
     (if first_index args src = i then first_index args dst # edge_targets args rest i
      else edge_targets args rest i)"
  by (simp add: edge_targets_def)

lemma edge_targets_append:
  "edge_targets args (xs @ ys) i = edge_targets args xs i @ edge_targets args ys i"
  by (simp add: edge_targets_def)

lemma edge_targets_less:
  "edges_known args edges \<Longrightarrow> j \<in> set (edge_targets args edges i) \<Longrightarrow> j < length args"
  by (auto simp: edge_targets_def edges_known_def list_all_iff first_index_less)

lemma edge_targets_out_of_range:
  "edges_known args edges \<Longrightarrow> \<not> i < length args \<Longrightarrow> edge_targets args edges i = []"
  by (auto simp: edge_targets_def edges_known_def list_all_iff filter_empty_conv
      dest: first_index_less)

lemma add_edges_known:
  "edges_known args edges \<Longrightarrow> \<forall>i < length args. af i \<noteq> None \<Longrightarrow>
     add_edges args edges af =
       Inr (\<lambda>i. case af i of None \<Rightarrow> None | Some succs \<Rightarrow> Some (succs @ edge_targets args edges i))"
proof (induction edges arbitrary: af)
  case Nil
  have "(\<lambda>i. case af i of None \<Rightarrow> None
            | Some succs \<Rightarrow> Some (succs @ edge_targets args [] i)) = af"
    by (rule ext) (simp split: option.split)
  then show ?case by (simp only: add_edges.simps)
next
  case (Cons e edges)
  obtain src dst where e: "e = (src, dst)" by (cases e)
  from Cons.prems(1) e have k: "src \<in> set args" "dst \<in> set args" "edges_known args edges"
    by (simp_all add: edges_known_def)
  let ?i = "first_index args src" and ?j = "first_index args dst"
  from k Cons.prems(2) obtain succs where s: "af ?i = Some succs"
    using first_index_less[of src args] by auto
  let ?af = "af(?i \<mapsto> succs @ [?j])"
  have tot: "\<forall>i < length args. ?af i \<noteq> None" using Cons.prems(2) by simp
  have "add_edges args (e # edges) af = add_edges args edges ?af"
    by (simp add: e list_index_member k s)
  also have "\<dots> = Inr (\<lambda>i. case ?af i of None \<Rightarrow> None
                          | Some succs \<Rightarrow> Some (succs @ edge_targets args edges i))"
    by (rule Cons.IH[OF k(3) tot])
  also have "(\<lambda>i. case ?af i of None \<Rightarrow> None
                          | Some succs \<Rightarrow> Some (succs @ edge_targets args edges i))
       = (\<lambda>i. case af i of None \<Rightarrow> None
                          | Some succs \<Rightarrow> Some (succs @ edge_targets args (e # edges) i))"
    by (rule ext) (simp add: e edge_targets_Cons s split: option.split)
  finally show ?case .
qed

lemma add_edges_unknown:
  "\<not> edges_known args edges \<Longrightarrow> \<forall>i < length args. af i \<noteq> None \<Longrightarrow>
     add_edges args edges af = Inl ValueError"
proof (induction edges arbitrary: af)
  case Nil
  then show ?case by (simp add: edges_known_def)
next
  case (Cons e edges)
  obtain src dst where e: "e = (src, dst)" by (cases e)
  show ?case
  proof (cases "src \<in> set args")
    case False
    then show ?thesis by (simp add: e list_index_missing)
  next
    case src: True
    let ?i = "first_index args src"
    from src Cons.prems(2) obtain succs where s: "af ?i = Some succs"
      using first_index_less[of src args] by auto
    show ?thesis
    proof (cases "dst \<in> set args")
      case False
      with src s show ?thesis by (simp add: e list_index_member list_index_missing)
    next
      case dst: True
      let ?af = "af(?i \<mapsto> succs @ [first_index args dst])"
      have tot: "\<forall>i < length args. ?af i \<noteq> None" using Cons.prems(2) by simp
      from Cons.prems(1) src dst e have nk: "\<not> edges_known args edges"
        by (simp add: edges_known_def)
      have "add_edges args (e # edges) af = add_edges args edges ?af"
        by (simp add: e list_index_member src dst s)
      also have "\<dots> = Inl ValueError" by (rule Cons.IH[OF nk tot])
      finally show ?thesis .
    qed
  qed
qed

lemma add_edges_empty_framework:
  "edges_known args edges \<Longrightarrow>
     add_edges args edges (empty_framework (length args)) =
       Inr (\<lambda>i. if i < length args then Some (edge_targets args edges i) else None)"
proof -
  assume k: "edges_known args edges"
  have "(\<lambda>i. case empty_framework (length args) i of None \<Rightarrow> None
            | Some succs \<Rightarrow> Some (succs @ edge_targets args edges i))
        = (\<lambda>i. if i < length args then Some (edge_targets args edges i) else None)"
    by (rule ext) (simp add: empty_framework_def)
  with add_edges_known[OF k, of "empty_framework (length args)"]
  show ?thesis by (simp add: empty_framework_def)
qed

lemma add_edges_empty_framework_unknown:
  "\<not> edges_known args edges \<Longrightarrow>
     add_edges args edges (empty_framework (length args)) = Inl ValueError"
  by (rule add_edges_unknown) (simp_all add: empty_framework_def)

section \<open>The cycle detector on a well-formed dictionary\<close>

text \<open>
  On a well-formed dictionary, with flag lists of the right length, the detector raises
  nothing: it returns a boolean and flag lists of the same length.
\<close>

lemma dfs_total:
  "framework_ok n af \<Longrightarrow> length visited = n \<Longrightarrow> length stack = n \<Longrightarrow> start < n \<Longrightarrow>
     \<exists>b visited' stack'. dfs_cycle af start visited stack = Inr (b, visited', stack')
        \<and> length visited' = n \<and> length stack' = n"
  "framework_ok n af \<Longrightarrow> length visited = n \<Longrightarrow> length stack = n \<Longrightarrow>
     \<forall>j \<in> set succs. j < n \<Longrightarrow>
     \<exists>b visited' stack'. dfs_succs af start succs visited stack = Inr (b, visited', stack')
        \<and> length visited' = n \<and> length stack' = n"
proof (induction af start visited stack and af start succs visited stack
    rule: dfs_cycle_dfs_succs.induct)
  case (1 af start visited stack)
  from framework_okD[OF "1.prems"(1,4)] obtain succs where
    s: "af start = Some succs" and lt: "\<forall>j \<in> set succs. j < n" by blast
  from "1.IH"[OF _ _ s "1.prems"(1) _ _ lt] "1.prems"
  show ?case by (auto simp: s)
next
  case (2 af start visited stack)
  then show ?case by auto
next
  case (3 af start arg rest visited stack)
  from "3.prems" have arg: "arg < n" and rest: "\<forall>j \<in> set rest. j < n" by simp_all
  show ?case
  proof (cases "visited ! arg")
    case True
    show ?thesis
    proof (cases "stack ! arg")
      case st: True
      with True arg "3.prems" show ?thesis by auto
    next
      case st: False
      from "3.IH"(3)[OF _ _ _ _ "3.prems"(1,2,3) rest] True st arg "3.prems"
      show ?thesis by auto
    qed
  next
    case False
    from "3.IH"(1)[OF _ False "3.prems"(1,2,3) arg] arg "3.prems"
    obtain f v1 s1 where c: "dfs_cycle af arg visited stack = Inr (f, v1, s1)"
      and len: "length v1 = n" "length s1 = n" by auto
    show ?thesis
    proof (cases f)
      case True
      with c len False arg "3.prems" show ?thesis by auto
    next
      case ff: False
      from "3.IH"(2)[OF _ False c refl refl ff "3.prems"(1) len rest] arg "3.prems"
      show ?thesis using c False ff by auto
    qed
  qed
qed

lemma roots_loop_invocations:
  "framework_ok n af \<Longrightarrow> length visited = n \<Longrightarrow> length stack = n \<Longrightarrow>
     \<forall>j \<in> set nodes. j < n \<Longrightarrow>
     roots_loop af nodes visited stack score
       = Inr (score + length (filter snd (root_invocations af nodes visited stack)))"
proof (induction nodes arbitrary: visited stack score)
  case Nil
  show ?case by simp
next
  case (Cons node nodes)
  then have node: "node < n" and rest: "\<forall>j \<in> set nodes. j < n" by simp_all
  show ?case
  proof (cases "visited ! node")
    case True
    with Cons.IH[OF Cons.prems(1,2,3) rest] node Cons.prems show ?thesis by simp
  next
    case False
    from dfs_total(1)[OF Cons.prems(1,2,3) node]
    obtain f v1 s1 where c: "dfs_cycle af node visited stack = Inr (f, v1, s1)"
      and len: "length v1 = n" "length s1 = n" by auto
    from Cons.IH[OF Cons.prems(1) len rest] False node Cons.prems c
    show ?thesis by simp
  qed
qed

lemma combined_framework_ok:
  "edges_known args atk \<Longrightarrow> edges_known args supp \<Longrightarrow>
     framework_ok (length args) (combined_framework args atk supp)"
  by (rule framework_okI) (auto simp: combined_framework_def dest: edge_targets_less)

lemma edges_known_append:
  "edges_known args (xs @ ys) = (edges_known args xs \<and> edges_known args ys)"
  by (simp add: edges_known_def)

lemma add_edges_combined:
  "edges_known args atk \<Longrightarrow> edges_known args supp \<Longrightarrow>
     add_edges args (atk @ supp) (empty_framework (length args))
       = Inr (combined_framework args atk supp)"
proof -
  assume k: "edges_known args atk" "edges_known args supp"
  have "(\<lambda>i. if i < length args then Some (edge_targets args (atk @ supp) i) else None)
          = combined_framework args atk supp"
    unfolding combined_framework_def by (rule ext) (simp add: edge_targets_append)
  with k show ?thesis
    by (simp add: add_edges_empty_framework edges_known_append)
qed

lemma root_invocations_no_edges:
  "length visited = n \<Longrightarrow> length stack = n \<Longrightarrow> \<forall>j \<in> set nodes. j < n \<Longrightarrow>
     filter snd (root_invocations (\<lambda>i. if i < n then Some [] else None) nodes visited stack) = []"
proof (induction nodes arbitrary: visited stack)
  case Nil
  show ?case by simp
next
  case (Cons node nodes)
  then show ?case by simp
qed

section \<open>Soundness of the cycle detector\<close>

text \<open>
  A call on an unvisited node returns true exactly when a cycle can be reached from that
  node. Flags left on the stack by a call that returned true only mark nodes that reach a
  cycle, so a later call that meets one of them is right to return true.
\<close>

lemma edges_of_less:
  "framework_ok n af \<Longrightarrow> i < n \<Longrightarrow> (i, j) \<in> edges_of af \<Longrightarrow> j < n"
  using framework_okD[of n af i] by (auto simp: edges_of_def)

lemma reaches_cycle_step:
  "(i, j) \<in> edges_of af \<Longrightarrow> reaches_cycle af j \<Longrightarrow> reaches_cycle af i"
  unfolding reaches_cycle_def by (blast intro: converse_rtrancl_into_rtrancl)

lemma reaches_cycle_back:
  "(i, j) \<in> edges_of af \<Longrightarrow> (j, i) \<in> (edges_of af)\<^sup>* \<Longrightarrow> reaches_cycle af i"
  unfolding reaches_cycle_def by (blast intro: rtrancl_into_trancl2)

lemma no_cycle_from_dead_successors:
  assumes "\<forall>j. (i, j) \<in> edges_of af \<longrightarrow> \<not> reaches_cycle af j"
  shows "\<not> reaches_cycle af i"
proof
  assume "reaches_cycle af i"
  then obtain x where ix: "(i, x) \<in> (edges_of af)\<^sup>*" and xx: "(x, x) \<in> (edges_of af)\<^sup>+"
    by (auto simp: reaches_cycle_def)
  from ix show False
  proof (cases rule: converse_rtranclE)
    case base
    with xx obtain j where "(i, j) \<in> edges_of af" "(j, i) \<in> (edges_of af)\<^sup>*"
      by (auto dest: tranclD)
    with xx base have "reaches_cycle af j" by (auto simp: reaches_cycle_def)
    with assms \<open>(i, j) \<in> edges_of af\<close> show False by blast
  next
    case (step j)
    with xx have "reaches_cycle af j" by (auto simp: reaches_cycle_def)
    with assms step show False by blast
  qed
qed

lemma on_stack_ok_step:
  "on_stack_ok n af stack cur \<Longrightarrow> (cur, j) \<in> edges_of af \<Longrightarrow> on_stack_ok n af stack j"
  unfolding on_stack_ok_def by (blast intro: rtrancl_into_rtrancl)


lemma found_post_step:
  "found_post n af stack visited' stack' arg \<Longrightarrow> (start, arg) \<in> edges_of af \<Longrightarrow>
     found_post n af stack visited' stack' start"
  unfolding found_post_def by (blast intro: reaches_cycle_step)

lemma dfs_sound:
  "framework_ok n af \<Longrightarrow> dfs_inv n af visited stack \<Longrightarrow> start < n \<Longrightarrow> \<not> visited ! start \<Longrightarrow>
   on_stack_ok n af stack start \<Longrightarrow>
   dfs_cycle af start visited stack = Inr (b, visited', stack') \<Longrightarrow>
     (\<forall>i < n. visited ! i \<longrightarrow> visited' ! i) \<and>
     (if b then found_post n af stack visited' stack' start
      else dfs_inv n af visited' stack' \<and> stack' = stack \<and> visited' ! start)"
  "framework_ok n af \<Longrightarrow> dfs_inv n af visited stack \<Longrightarrow> start < n \<Longrightarrow> visited ! start \<Longrightarrow>
   stack ! start \<Longrightarrow> on_stack_ok n af stack start \<Longrightarrow>
   \<forall>j \<in> set succs. (start, j) \<in> edges_of af \<Longrightarrow>
   dfs_succs af start succs visited stack = Inr (b, visited', stack') \<Longrightarrow>
     (\<forall>i < n. visited ! i \<longrightarrow> visited' ! i) \<and>
     (if b then found_post n af stack visited' stack' start
      else loop_post n af stack visited' stack' start succs)"
proof (induction af start visited stack and af start succs visited stack
    arbitrary: b visited' stack' and b visited' stack' rule: dfs_cycle_dfs_succs.induct)
  case (1 af start visited stack)
  note ok = "1.prems"(1) and inv = "1.prems"(2) and lt = "1.prems"(3)
    and nv = "1.prems"(4) and osk = "1.prems"(5) and eq = "1.prems"(6)
  from inv have len: "length visited = n" "length stack = n"
    and sv: "\<forall>i < n. stack ! i \<longrightarrow> visited ! i"
    and dead: "\<forall>i < n. visited ! i \<and> \<not> stack ! i \<longrightarrow> \<not> reaches_cycle af i"
    by (simp_all add: dfs_inv_def)
  from sv nv lt have ns: "\<not> stack ! start" by blast
  from framework_okD[OF ok lt] obtain succs where s: "af start = Some succs" by blast
  let ?v1 = "visited[start := True]" and ?s1 = "stack[start := True]"
  from eq len lt s have eq1: "dfs_succs af start succs ?v1 ?s1 = Inr (b, visited', stack')"
    by simp
  have inv1: "dfs_inv n af ?v1 ?s1"
    using len sv dead lt by (auto simp: dfs_inv_def nth_list_update)
  have osk1: "on_stack_ok n af ?s1 start"
    unfolding on_stack_ok_def
  proof (intro allI impI)
    fix i assume i: "i < n" "?s1 ! i"
    show "reaches_cycle af i \<or> (i, start) \<in> (edges_of af)\<^sup>*"
    proof (cases "i = start")
      case True
      then show ?thesis by simp
    next
      case False
      with i osk show ?thesis by (simp add: on_stack_ok_def)
    qed
  qed
  have ed: "\<forall>j \<in> set succs. (start, j) \<in> edges_of af"
    using s by (auto simp: edges_of_def)
  have "?v1 ! start" "?s1 ! start" using len lt by simp_all
  note marks = this
  from len lt have nn: "\<not> \<not> start < length visited" "\<not> \<not> start < length stack"
    by simp_all
  from "1.IH"[OF nn s ok inv1 lt marks osk1 ed eq1]
  have mono1: "\<forall>i < n. ?v1 ! i \<longrightarrow> visited' ! i"
    and post: "if b then found_post n af ?s1 visited' stack' start
               else loop_post n af ?s1 visited' stack' start succs"
    by blast+
  have mono: "\<forall>i < n. visited ! i \<longrightarrow> visited' ! i"
  proof (intro allI impI)
    fix i assume i: "i < n" "visited ! i"
    with len lt have "?v1 ! i" by (simp add: nth_list_update)
    with mono1 i show "visited' ! i" by blast
  qed
  show ?case
  proof (cases b)
    case True
    with post have fp: "found_post n af ?s1 visited' stack' start" by simp
    then have "found_post n af stack visited' stack' start"
      using len lt ns unfolding found_post_def
      by (auto simp: nth_list_update split: if_splits)
    with True mono show ?thesis by simp
  next
    case False
    with post have lp: "loop_post n af ?s1 visited' stack' start succs" by simp
    then have st: "stack' = stack"
      using ns len lt by (simp add: loop_post_def list_update_same_conv)
    from lp have lv: "length visited' = n"
      and sv': "\<forall>i < n. ?s1 ! i \<longrightarrow> visited' ! i"
      and su: "\<forall>j \<in> set succs. \<not> ?s1 ! j \<and> visited' ! j"
      and dd: "\<forall>i < n. i \<noteq> start \<and> visited' ! i \<and> \<not> ?s1 ! i \<longrightarrow> \<not> reaches_cycle af i"
      by (simp_all add: loop_post_def)
    have vs: "visited' ! start" using mono1 len lt by simp
    have "\<not> reaches_cycle af start"
    proof (rule no_cycle_from_dead_successors, intro allI impI)
      fix j assume e: "(start, j) \<in> edges_of af"
      then have jn: "j < n" by (rule edges_of_less[OF ok lt])
      from e s have "j \<in> set succs" by (auto simp: edges_of_def)
      with su have "\<not> ?s1 ! j" "visited' ! j" by simp_all
      moreover from this(1) len lt have "j \<noteq> start" by auto
      ultimately show "\<not> reaches_cycle af j" using dd jn by blast
    qed
    with dd sv' lv len lt have "dfs_inv n af visited' stack"
      by (auto simp: dfs_inv_def nth_list_update split: if_splits)
    with False mono st vs show ?thesis by simp
  qed
next
  case (2 af start visited stack)
  then show ?case
    by (auto simp: loop_post_def dfs_inv_def)
next
  case (3 af start arg rest visited stack)
  note ok = "3.prems"(1) and inv = "3.prems"(2) and lt = "3.prems"(3)
    and vs = "3.prems"(4) and ss = "3.prems"(5) and osk = "3.prems"(6)
    and ed = "3.prems"(7) and eq = "3.prems"(8)
  from inv have len: "length visited = n" "length stack = n"
    and sv: "\<forall>i < n. stack ! i \<longrightarrow> visited ! i"
    by (simp_all add: dfs_inv_def)
  from ed have e: "(start, arg) \<in> edges_of af"
    and edr: "\<forall>j \<in> set rest. (start, j) \<in> edges_of af" by simp_all
  from e have an: "arg < n" by (rule edges_of_less[OF ok lt])
  show ?case
  proof (cases "visited ! arg")
    case va: True
    show ?thesis
    proof (cases "stack ! arg")
      case True
      with va an len eq have r: "b" "visited' = visited" "stack' = stack" by simp_all
      from osk an True have "reaches_cycle af arg \<or> (arg, start) \<in> (edges_of af)\<^sup>*"
        by (simp add: on_stack_ok_def)
      with e have "reaches_cycle af start"
        by (blast intro: reaches_cycle_step reaches_cycle_back)
      with inv r show ?thesis by (simp add: found_post_def)
    next
      case False
      with va an len eq have eq': "dfs_succs af start rest visited stack = Inr (b, visited', stack')"
        by simp
      from va an len have nn: "\<not> \<not> arg < length visited" "\<not> \<not> visited ! arg"
        "\<not> \<not> arg < length stack" by simp_all
      from "3.IH"(3)[OF nn False ok inv lt vs ss osk edr eq']
      have mono: "\<forall>i < n. visited ! i \<longrightarrow> visited' ! i"
        and post: "if b then found_post n af stack visited' stack' start
               else loop_post n af stack visited' stack' start rest"
        by blast+
      from post mono va False an have "if b then found_post n af stack visited' stack' start
               else loop_post n af stack visited' stack' start (arg # rest)"
        by (auto simp: loop_post_def)
      with mono show ?thesis by simp
    qed
  next
    case nva: False
    with sv an have nsa: "\<not> stack ! arg" by blast
    from eq nva an len obtain f v1 s1 where c: "dfs_cycle af arg visited stack = Inr (f, v1, s1)"
      by (auto split: sum.splits)
    from an len have nn: "\<not> \<not> arg < length visited" by simp
    from "3.IH"(1)[OF nn nva ok inv an nva on_stack_ok_step[OF osk e] c]
    have mono1: "\<forall>i < n. visited ! i \<longrightarrow> v1 ! i"
      and post1: "if f then found_post n af stack v1 s1 arg
                  else dfs_inv n af v1 s1 \<and> s1 = stack \<and> v1 ! arg"
      by blast+
    show ?thesis
    proof (cases f)
      case True
      with c nva an len eq have r: "b" "visited' = v1" "stack' = s1" by simp_all
      from True post1 have "found_post n af stack v1 s1 arg" by simp
      then have "found_post n af stack v1 s1 start" using e by (rule found_post_step)
      with r mono1 show ?thesis by simp
    next
      case ff: False
      with post1 have inv1: "dfs_inv n af v1 stack" and s1: "s1 = stack" and v1a: "v1 ! arg"
        by auto
      from c ff nva an len eq s1
      have eq': "dfs_succs af start rest v1 s1 = Inr (b, visited', stack')" by simp
      from mono1 vs lt have vs1: "v1 ! start" by simp
      from inv1 ss osk s1 have pre: "dfs_inv n af v1 s1" "s1 ! start" "on_stack_ok n af s1 start"
        by simp_all
      from "3.IH"(2)[OF nn nva c refl refl ff ok pre(1) lt vs1 pre(2,3) edr eq'] s1
      have mono2: "\<forall>i < n. v1 ! i \<longrightarrow> visited' ! i"
        and post: "if b then found_post n af stack visited' stack' start
               else loop_post n af stack visited' stack' start rest"
        by blast+
      from post mono2 v1a nsa an have "if b then found_post n af stack visited' stack' start
               else loop_post n af stack visited' stack' start (arg # rest)"
        by (auto simp: loop_post_def)
      with mono1 mono2 show ?thesis by simp
    qed
  qed
qed


lemma root_invocations_sound:
  "framework_ok n af \<Longrightarrow> dfs_inv n af visited stack \<Longrightarrow>
   \<forall>i < n. stack ! i \<longrightarrow> reaches_cycle af i \<Longrightarrow> \<forall>j \<in> set nodes. j < n \<Longrightarrow>
   (r, found) \<in> set (root_invocations af nodes visited stack) \<Longrightarrow>
     found = reaches_cycle af r"
proof (induction nodes arbitrary: visited stack)
  case Nil
  then show ?case by simp
next
  case (Cons node nodes)
  note ok = Cons.prems(1) and inv = Cons.prems(2) and stale = Cons.prems(3)
    and mem = Cons.prems(5)
  from Cons.prems(4) have node: "node < n" and rest: "\<forall>j \<in> set nodes. j < n" by simp_all
  from inv have len: "length visited = n" "length stack = n"
    and sv: "\<forall>i < n. stack ! i \<longrightarrow> visited ! i"
    by (simp_all add: dfs_inv_def)
  show ?case
  proof (cases "visited ! node")
    case True
    with mem have "(r, found) \<in> set (root_invocations af nodes visited stack)" by simp
    from Cons.IH[OF ok inv stale rest this] show ?thesis .
  next
    case False
    with sv node have ns: "\<not> stack ! node" by blast
    from dfs_total(1)[OF ok len node]
    obtain f v1 s1 where c: "dfs_cycle af node visited stack = Inr (f, v1, s1)" by blast
    from stale have osk: "on_stack_ok n af stack node" by (simp add: on_stack_ok_def)
    from dfs_sound(1)[OF ok inv node False osk c]
    have post: "if f then found_post n af stack v1 s1 node
                else dfs_inv n af v1 s1 \<and> s1 = stack \<and> v1 ! node"
      by blast
    have inv1: "dfs_inv n af v1 s1" using post by (auto simp: found_post_def split: if_splits)
    have stale1: "\<forall>i < n. s1 ! i \<longrightarrow> reaches_cycle af i"
      using post stale by (auto simp: found_post_def split: if_splits)
    have here: "f = reaches_cycle af node"
    proof (cases f)
      case True
      with post show ?thesis by (simp add: found_post_def)
    next
      case ff: False
      with post have "dfs_inv n af v1 stack" "v1 ! node" by auto
      with ns node have "\<not> reaches_cycle af node" by (simp add: dfs_inv_def)
      with ff show ?thesis by simp
    qed
    from mem False c have "(r, found) = (node, f)
        \<or> (r, found) \<in> set (root_invocations af nodes v1 s1)" by simp
    then show ?thesis
    proof
      assume "(r, found) = (node, f)"
      with here show ?thesis by simp
    next
      assume "(r, found) \<in> set (root_invocations af nodes v1 s1)"
      from Cons.IH[OF ok inv1 stale1 rest this] show ?thesis .
    qed
  qed
qed

lemma dfs_inv_initial: "dfs_inv n af (replicate n False) (replicate n False)"
  by (simp add: dfs_inv_def)

section \<open>Circularity\<close>

lemma two_argument_cycle:
  "compute_circularity [a, b] [(a, b), (b, a)] [] = Inr (1 / 2)"
  by (cases "a = b") (simp_all add: compute_circularity_def empty_framework_def upt_rec)

text \<open>
  C1. For a non-empty argument list whose edges name arguments of the list,
  \<open>compute_circularity\<close> returns the number of top-level invocations of the cycle
  detector that return true, divided by the number of arguments; the invocations are those
  made on the graph of the attack edges attacker \<open>\<rightarrow>\<close> attacked and the support edges
  supported \<open>\<rightarrow>\<close> supporter, taking the nodes in index order and skipping the nodes
  already visited, and an invocation returns true exactly when a cycle of that graph can
  be reached from its root. With no edge at all the result is \<open>0\<close>; for two arguments
  with the attacks \<open>A \<rightarrow> B\<close> and \<open>B \<rightarrow> A\<close> it is \<open>1/2\<close>.
\<close>

theorem circularity_counts_cyclic_roots:
  "(args \<noteq> [] \<and> edges_known args atk \<and> edges_known args supp \<longrightarrow>
      compute_circularity args atk supp =
        Inr (of_nat (length (filter snd
               (root_invocations (combined_framework args atk supp) [0..<length args]
                  (replicate (length args) False) (replicate (length args) False))))
             / of_nat (length args))
    \<and> (\<forall>(r, found) \<in> set (root_invocations (combined_framework args atk supp)
                              [0..<length args]
                              (replicate (length args) False) (replicate (length args) False)).
          found = reaches_cycle (combined_framework args atk supp) r))
   \<and> (args \<noteq> [] \<longrightarrow> compute_circularity args [] [] = Inr 0)
   \<and> compute_circularity [a, b] [(a, b), (b, a)] [] = Inr (1 / 2)"
proof (intro conjI impI)
  assume "args \<noteq> [] \<and> edges_known args atk \<and> edges_known args supp"
  then have ne: "args \<noteq> []" and k: "edges_known args atk" "edges_known args supp"
    by simp_all
  from ne show "compute_circularity args atk supp =
        Inr (of_nat (length (filter snd
               (root_invocations (combined_framework args atk supp) [0..<length args]
                  (replicate (length args) False) (replicate (length args) False))))
             / of_nat (length args))"
    by (simp add: compute_circularity_joined add_edges_combined[OF k]
        roots_loop_invocations[OF combined_framework_ok[OF k]])
  have "found = reaches_cycle (combined_framework args atk supp) r"
    if "(r, found) \<in> set (root_invocations (combined_framework args atk supp)
                              [0..<length args]
                              (replicate (length args) False) (replicate (length args) False))"
    for r found
    using that
    by (rule root_invocations_sound[OF combined_framework_ok[OF k] dfs_inv_initial, rotated -1])
      simp_all
  then show "\<forall>(r, found) \<in> set (root_invocations (combined_framework args atk supp)
                              [0..<length args]
                              (replicate (length args) False) (replicate (length args) False)).
          found = reaches_cycle (combined_framework args atk supp) r"
    by auto
next
  assume ne: "args \<noteq> []"
  have cf: "combined_framework args [] [] = (\<lambda>i. if i < length args then Some [] else None)"
    unfolding combined_framework_def by (rule ext) simp
  have k: "edges_known args []" by (simp add: edges_known_def)
  from ne show "compute_circularity args [] [] = Inr 0"
    using add_edges_combined[OF k k] roots_loop_invocations[OF combined_framework_ok[OF k k]]
    by (simp add: compute_circularity_def cf root_invocations_no_edges[where n = "length args"])
next
  show "compute_circularity [a, b] [(a, b), (b, a)] [] = Inr (1 / 2)"
    by (rule two_argument_cycle)
qed

theorem circularity_counts_cyclic_roots_witness:
  "[''A'', ''B'', ''C'', ''D''] \<noteq> []
   \<and> edges_known [''A'', ''B'', ''C'', ''D''] [(''A'', ''B''), (''B'', ''A'')]
   \<and> edges_known [''A'', ''B'', ''C'', ''D''] [(''C'', ''A'')]
   \<and> compute_circularity [''A'', ''B'', ''C'', ''D''] [(''A'', ''B''), (''B'', ''A'')]
        [(''C'', ''A'')] = Inr (1 / 2)
   \<and> root_invocations
        (combined_framework [''A'', ''B'', ''C'', ''D''] [(''A'', ''B''), (''B'', ''A'')]
           [(''C'', ''A'')])
        [0..<length [''A'', ''B'', ''C'', ''D'']]
        (replicate (length [''A'', ''B'', ''C'', ''D'']) False)
        (replicate (length [''A'', ''B'', ''C'', ''D'']) False)
       = [(0, True), (2, True), (3, False)]
   \<and> reaches_cycle
        (combined_framework [''A'', ''B'', ''C'', ''D''] [(''A'', ''B''), (''B'', ''A'')]
           [(''C'', ''A'')]) 2
   \<and> \<not> reaches_cycle
        (combined_framework [''A'', ''B'', ''C'', ''D''] [(''A'', ''B''), (''B'', ''A'')]
           [(''C'', ''A'')]) 3"
proof -
  let ?args = "[''A'', ''B'', ''C'', ''D'']"
  let ?atk = "[(''A'', ''B''), (''B'', ''A'')]"
  let ?supp = "[(''C'', ''A'')]"
  let ?cf = "combined_framework ?args ?atk ?supp"
  let ?runs = "root_invocations ?cf [0..<length ?args]
                 (replicate (length ?args) False) (replicate (length ?args) False)"
  have h: "?args \<noteq> [] \<and> edges_known ?args ?atk \<and> edges_known ?args ?supp"
    by (simp add: edges_known_def)
  have runs: "?runs = [(0, True), (2, True), (3, False)]"
    by (simp add: combined_framework_def edge_targets_def first_index_def upt_rec)
  from circularity_counts_cyclic_roots [of ?args ?atk ?supp "''A''" "''B''"] h
  have c: "compute_circularity ?args ?atk ?supp
             = Inr (of_nat (length (filter snd ?runs)) / of_nat (length ?args))"
    and q: "\<forall>(r, found) \<in> set ?runs. found = reaches_cycle ?cf r"
    by blast+
  from c have "compute_circularity ?args ?atk ?supp = Inr (1 / 2)"
    unfolding runs by simp
  moreover from q have "reaches_cycle ?cf 2" "\<not> reaches_cycle ?cf 3"
    unfolding runs by simp_all
  ultimately show ?thesis using h runs by blast
qed

text \<open>
  C5 (as the code has it). With an empty argument list \<open>compute_circularity\<close> always
  fails, and never through a guard of its own: with no edge at all the final division
  raises \<open>ZeroDivisionError\<close>, and with any attack or support pair the first
  \<^verbatim>\<open>args.index\<close> raises \<open>ValueError\<close>. No value (and no NaN or infinity) is returned.
\<close>

theorem circularity_empty_args:
  "compute_circularity [] atk supp =
     Inl (if atk = [] \<and> supp = [] then ZeroDivisionError else ValueError)"
proof (cases atk)
  case Nil
  show ?thesis
  proof (cases supp)
    case n2: Nil
    with Nil show ?thesis by (simp add: compute_circularity_def)
  next
    case (Cons e es)
    with Nil show ?thesis by (cases e) (simp add: compute_circularity_def)
  qed
next
  case (Cons e es)
  then show ?thesis by (cases e) (simp add: compute_circularity_def)
qed

theorem circularity_empty_args_witness:
  "compute_circularity ([] :: string list) [] [(''A'', ''B'')] = Inl ValueError"
  using circularity_empty_args [of "[]" "[(''A'', ''B'')]"] by simp

text \<open>
  The claim as the specification states it fails: on the empty argument list with no
  edges the failure is the \<open>ZeroDivisionError\<close> of the division itself, not a
  \<open>DomainError\<close> raised by a guard.
\<close>

theorem circularity_empty_args_counterexample:
  "compute_circularity ([] :: string list) [] [] = Inl ZeroDivisionError
   \<and> compute_circularity ([] :: string list) [] [] \<noteq> Inl DomainError"
  by (simp add: compute_circularity_def)



section \<open>Dialectical acceptability\<close>

lemma build_attacks_add_edges:
  "build_attacks args atk yhat af flag =
     (case add_edges args (map prod.swap atk) af of
        Inl e \<Rightarrow> Inl e
      | Inr af' \<Rightarrow> Inr (af', flag \<or> (\<exists>e \<in> set atk. snd e \<in> set yhat)))"
proof (induction atk arbitrary: af flag)
  case Nil
  show ?case by simp
next
  case (Cons e atk)
  obtain attacker attacked where e: "e = (attacker, attacked)" by (cases e)
  show ?case
  proof (cases "list_index args attacked")
    case Inl
    then show ?thesis by (simp add: e)
  next
    case i: (Inr i)
    show ?thesis
    proof (cases "af i")
      case None
      with i show ?thesis by (simp add: e)
    next
      case (Some attackers)
      show ?thesis
      proof (cases "list_index args attacker")
        case Inl
        with i Some show ?thesis by (simp add: e)
      next
        case (Inr j)
        let ?af = "af(i \<mapsto> attackers @ [j])"
        let ?flag = "if attacked \<in> set yhat then True else flag"
        have "build_attacks args (e # atk) yhat af flag = build_attacks args atk yhat ?af ?flag"
          by (simp add: e i Some Inr)
        also have "\<dots> = (case add_edges args (map prod.swap atk) ?af of
                            Inl e \<Rightarrow> Inl e
                          | Inr af' \<Rightarrow> Inr (af', ?flag \<or> (\<exists>e \<in> set atk. snd e \<in> set yhat)))"
          by (rule Cons.IH)
        also have "add_edges args (map prod.swap atk) ?af = add_edges args (map prod.swap (e # atk)) af"
          by (simp add: e i Some Inr)
        also have "(?flag \<or> (\<exists>e \<in> set atk. snd e \<in> set yhat))
                    = (flag \<or> (\<exists>x \<in> set (e # atk). snd x \<in> set yhat))"
          by (auto simp: e)
        finally show ?thesis .
      qed
    qed
  qed
qed


lemma edges_known_swap: "edges_known args (map prod.swap atk) = edges_known args atk"
  by (auto simp: edges_known_def list_all_iff)

lemma build_attacks_known:
  "edges_known args atk \<Longrightarrow>
     build_attacks args atk yhat (empty_framework (length args)) False =
       Inr (attackers_framework args atk, \<exists>e \<in> set atk. snd e \<in> set yhat)"
  by (simp add: build_attacks_add_edges add_edges_empty_framework edges_known_swap
      attackers_framework_def)

lemma build_attacks_unknown:
  "\<not> edges_known args atk \<Longrightarrow>
     build_attacks args atk yhat (empty_framework (length args)) False = Inl ValueError"
  by (simp add: build_attacks_add_edges add_edges_empty_framework_unknown edges_known_swap)

lemma attackers_of_known:
  "edges_known args atk \<Longrightarrow> x \<in> set (attackers_of atk a) \<Longrightarrow> x \<in> set args"
  by (auto simp: attackers_of_def edges_known_def list_all_iff)

lemma attackers_framework_at:
  assumes k: "edges_known args atk" and a: "a \<in> set args"
  shows "attackers_framework args atk (first_index args a)
           = Some (map (first_index args) (attackers_of atk a))"
proof -
  have "filter (\<lambda>e. first_index args (snd e) = first_index args a) atk
          = filter (\<lambda>e. snd e = a) atk"
  proof (rule filter_cong[OF refl])
    fix e assume "e \<in> set atk"
    with k have "snd e \<in> set args" by (simp add: edges_known_def list_all_iff)
    then show "(first_index args (snd e) = first_index args a) = (snd e = a)"
      using a by (simp add: first_index_eq_iff)
  qed
  then have "edge_targets args (map prod.swap atk) (first_index args a)
               = map (first_index args) (attackers_of atk a)"
    by (simp add: edge_targets_def attackers_of_def filter_map comp_def)
  with a show ?thesis
    by (simp add: attackers_framework_def first_index_less)
qed

lemma count_attacked_eq:
  "\<forall>j \<in> set js. af j \<noteq> None \<Longrightarrow>
     count_attacked af js s = Inr (s + length (filter (\<lambda>j. af j \<noteq> Some []) js))"
proof (induction js arbitrary: s)
  case Nil
  show ?case by simp
next
  case (Cons j js)
  then obtain l where l: "af j = Some l" by auto
  with Cons show ?case by simp
qed

lemma count_attacked_attackers:
  assumes k: "edges_known args atk"
  shows "count_attacked (attackers_framework args atk)
            (map (first_index args) (attackers_of atk a)) 0
         = Inr (length (filter (\<lambda>x. attackers_of atk x \<noteq> []) (attackers_of atk a)))"
proof -
  let ?af = "attackers_framework args atk"
  have tot: "\<forall>j \<in> set (map (first_index args) (attackers_of atk a)). ?af j \<noteq> None"
    using attackers_of_known[OF k] by (auto simp: attackers_framework_at[OF k])
  have "filter (\<lambda>x. ?af (first_index args x) \<noteq> Some []) (attackers_of atk a)
          = filter (\<lambda>x. attackers_of atk x \<noteq> []) (attackers_of atk a)"
    by (rule filter_cong[OF refl]) (simp add: attackers_framework_at[OF k attackers_of_known[OF k]])
  then have "length (filter (\<lambda>j. ?af j \<noteq> Some []) (map (first_index args) (attackers_of atk a)))
          = length (filter (\<lambda>x. attackers_of atk x \<noteq> []) (attackers_of atk a))"
    by (simp add: filter_map comp_def)
  with count_attacked_eq[OF tot, of 0] show ?thesis by simp
qed

lemma score_loop_known:
  assumes k: "edges_known args atk"
  shows "set yhat \<subseteq> set args \<Longrightarrow>
     score_loop args (attackers_framework args atk) yhat score
       = Inr (score + sum_list (map (local_score atk) yhat))"
proof (induction yhat arbitrary: score)
  case Nil
  show ?case by simp
next
  case (Cons a yhat)
  then have a: "a \<in> set args" and sub: "set yhat \<subseteq> set args" by simp_all
  note at = attackers_framework_at[OF k a]
  show ?case
  proof (cases "attackers_of atk a = []")
    case True
    then show ?thesis
      by (simp add: list_index_member[OF a] at Cons.IH[OF sub] local_score_def)
  next
    case False
    then show ?thesis
      by (simp add: list_index_member[OF a] at count_attacked_attackers[OF k]
          Cons.IH[OF sub] local_score_def)
  qed
qed

lemma score_loop_unknown:
  assumes k: "edges_known args atk"
  shows "\<not> set yhat \<subseteq> set args \<Longrightarrow>
     score_loop args (attackers_framework args atk) yhat score = Inl ValueError"
proof (induction yhat arbitrary: score)
  case Nil
  then show ?case by simp
next
  case (Cons a yhat)
  show ?case
  proof (cases "a \<in> set args")
    case False
    then show ?thesis by (simp add: list_index_missing)
  next
    case a: True
    with Cons.prems have sub: "\<not> set yhat \<subseteq> set args" by simp
    note at = attackers_framework_at[OF k a]
    show ?thesis
    proof (cases "attackers_of atk a = []")
      case True
      then show ?thesis
        by (simp add: list_index_member[OF a] at Cons.IH[OF sub])
    next
      case False
      then show ?thesis
        by (simp add: list_index_member[OF a] at count_attacked_attackers[OF k]
            Cons.IH[OF sub])
    qed
  qed
qed

lemma attacked_nonempty:
  "edges_known args atk \<Longrightarrow> e \<in> set atk \<Longrightarrow> args \<noteq> []"
  by (auto simp: edges_known_def list_all_iff)

text \<open>
  C2. For an argument list whose attack edges and whose \<open>args_y_hat\<close> name arguments of
  the list, and with at least one attacked member of \<open>args_y_hat\<close>, the result is the sum
  over \<open>args_y_hat\<close> of the local scores (1 without attackers, otherwise the fraction of
  the attackers that have an attacker themselves) divided by the total number of
  arguments.
\<close>

theorem acceptability_sum_of_local_scores:
  "edges_known args atk \<Longrightarrow> set args_y_hat \<subseteq> set args \<Longrightarrow>
   \<exists>e \<in> set atk. snd e \<in> set args_y_hat \<Longrightarrow>
   compute_dialectical_acceptability args atk args_y_hat
     = Inr (sum_list (map (local_score atk) args_y_hat) / of_nat (length args))"
  using attacked_nonempty[of args atk]
  by (auto simp: compute_dialectical_acceptability_def build_attacks_known score_loop_known)

theorem acceptability_sum_of_local_scores_witness:
  "edges_known [''A'', ''B'', ''C''] [(''B'', ''A''), (''C'', ''A''), (''A'', ''B'')]
   \<and> set [''A'', ''C''] \<subseteq> set [''A'', ''B'', ''C'']
   \<and> (\<exists>e \<in> set [(''B'', ''A''), (''C'', ''A''), (''A'', ''B'')]. snd e \<in> set [''A'', ''C''])
   \<and> compute_dialectical_acceptability [''A'', ''B'', ''C'']
        [(''B'', ''A''), (''C'', ''A''), (''A'', ''B'')] [''A'', ''C''] = Inr (1 / 2)"
  using acceptability_sum_of_local_scores
    [of "[''A'', ''B'', ''C'']" "[(''B'', ''A''), (''C'', ''A''), (''A'', ''B'')]" "[''A'', ''C'']"]
  by (simp add: edges_known_def local_score_def attackers_of_def)

text \<open>
  C8. When the attack edges name arguments of the list and no member of \<open>args_y_hat\<close> is
  the attacked member of an attack edge, the result is exactly \<open>1\<close>, whatever the number
  of arguments, the attacks on other arguments and the content of \<open>args_y_hat\<close>.
\<close>

theorem acceptability_unattacked_is_one:
  "edges_known args atk \<Longrightarrow> \<not> (\<exists>e \<in> set atk. snd e \<in> set args_y_hat) \<Longrightarrow>
   compute_dialectical_acceptability args atk args_y_hat = Inr 1"
  by (simp add: compute_dialectical_acceptability_def build_attacks_known)

theorem acceptability_unattacked_is_one_witness:
  "edges_known [''A'', ''B'', ''C'', ''D''] [(''B'', ''C''), (''C'', ''D'')]
   \<and> \<not> (\<exists>e \<in> set [(''B'', ''C''), (''C'', ''D'')]. snd e \<in> set [''A'', ''B''])
   \<and> compute_dialectical_acceptability [''A'', ''B'', ''C'', ''D'']
        [(''B'', ''C''), (''C'', ''D'')] [''A'', ''B''] = Inr 1"
  using acceptability_unattacked_is_one
    [of "[''A'', ''B'', ''C'', ''D'']" "[(''B'', ''C''), (''C'', ''D'')]" "[''A'', ''B'']"]
  by (simp add: edges_known_def)

text \<open>
  C6 (as the code has it). \<open>compute_dialectical_acceptability\<close> fails exactly when an
  attack edge names an identifier that is not in \<open>args\<close>, or when some member of
  \<open>args_y_hat\<close> is attacked and \<open>args_y_hat\<close> contains an identifier that is not in
  \<open>args\<close>; the failure is the \<open>ValueError\<close> of \<^verbatim>\<open>list.index\<close>. When no member of
  \<open>args_y_hat\<close> is attacked the identifiers of \<open>args_y_hat\<close> are never looked up.
\<close>

theorem acceptability_failure:
  "compute_dialectical_acceptability args atk args_y_hat = Inl e \<longleftrightarrow>
     e = ValueError \<and>
     (\<not> edges_known args atk \<or>
      ((\<exists>x \<in> set atk. snd x \<in> set args_y_hat) \<and> \<not> set args_y_hat \<subseteq> set args))"
proof (cases "edges_known args atk")
  case False
  then show ?thesis
    by (auto simp: compute_dialectical_acceptability_def build_attacks_unknown)
next
  case k: True
  show ?thesis
  proof (cases "\<exists>x \<in> set atk. snd x \<in> set args_y_hat")
    case False
    with k show ?thesis
      by (simp add: compute_dialectical_acceptability_def build_attacks_known)
  next
    case att: True
    then have ne: "args \<noteq> []" using attacked_nonempty[OF k] by auto
    show ?thesis
    proof (cases "set args_y_hat \<subseteq> set args")
      case True
      with k att ne show ?thesis
        by (simp add: compute_dialectical_acceptability_def build_attacks_known score_loop_known)
    next
      case False
      with k att ne show ?thesis
        by (auto simp: compute_dialectical_acceptability_def build_attacks_known
            score_loop_unknown[OF k False])
    qed
  qed
qed

theorem acceptability_failure_witness:
  "compute_dialectical_acceptability [''A'', ''B''] [(''B'', ''A'')] [''A'', ''Z'']
     = Inl ValueError
   \<and> compute_dialectical_acceptability [''A'', ''B''] [(''Z'', ''B'')] [''A'']
     = Inl ValueError"
  using acceptability_failure
      [of "[''A'', ''B'']" "[(''B'', ''A'')]" "[''A'', ''Z'']" ValueError]
    acceptability_failure
      [of "[''A'', ''B'']" "[(''Z'', ''B'')]" "[''A'']" ValueError]
  by (simp add: edges_known_def)

text \<open>
  The claim as the specification states it fails: \<open>Z\<close> is in \<open>args_y_hat\<close> and not in
  \<open>args\<close>, no member of \<open>args_y_hat\<close> is attacked, and the call returns \<open>1\<close> without any
  error.
\<close>

theorem acceptability_failure_counterexample:
  "''Z'' \<in> set [''Z''] \<and> ''Z'' \<notin> set [''A'']
   \<and> compute_dialectical_acceptability [''A''] [] [''Z''] = Inr 1"
  by (simp add: compute_dialectical_acceptability_def)

section \<open>Dialectical faithfulness\<close>

lemma any_attacker_iff: "any_attacker violates xs = (\<exists>a \<in> set xs. violates a)"
  by (induction xs) auto

lemma check_top_iff:
  "check_top args atk xs =
     (\<forall>arg \<in> set xs. \<forall>attacker \<in> set (get_attackers args atk (id' arg)).
        \<not> strength attacker \<ge> strength arg)"
  by (induction xs) (auto simp: any_attacker_iff get_dialectical_strength_def)

lemma check_high_iff:
  "check_high args atk xs =
     (\<forall>arg \<in> set xs. \<forall>attacker \<in> set (get_attackers args atk (id' arg)).
        \<not> strength attacker > strength arg)"
  by (induction xs) (auto simp: any_attacker_iff get_dialectical_strength_def)

lemma check_low_iff:
  "check_low args atk xs =
     (\<not> (\<exists>arg \<in> set xs. strength arg > 1 / 2 \<and>
           (\<exists>attacker \<in> set (get_attackers args atk (id' arg)).
              strength attacker \<le> strength arg)))"
  by (induction xs) (auto simp: any_attacker_iff get_dialectical_strength_def)

text \<open>
  The same three loops stated on the attack edges themselves: the attackers of \<open>arg\<close> are
  the arguments of \<open>args\<close> whose identifier is paired with the identifier of \<open>arg\<close> in
  \<open>attack_relations\<close>.
\<close>

lemma get_attackers_iff:
  "attacker \<in> set (get_attackers args atk arg_id)
     \<longleftrightarrow> attacker \<in> set args \<and> (id' attacker, arg_id) \<in> set atk"
  by (simp add: get_attackers_def)

lemma check_top_edges:
  "check_top args atk xs =
     (\<forall>arg \<in> set xs. \<forall>attacker \<in> set args.
        (id' attacker, id' arg) \<in> set atk \<longrightarrow> \<not> strength attacker \<ge> strength arg)"
  unfolding check_top_iff by (auto simp: get_attackers_iff)

lemma check_high_edges:
  "check_high args atk xs =
     (\<forall>arg \<in> set xs. \<forall>attacker \<in> set args.
        (id' attacker, id' arg) \<in> set atk \<longrightarrow> \<not> strength attacker > strength arg)"
  unfolding check_high_iff by (auto simp: get_attackers_iff)

lemma check_low_edges:
  "check_low args atk xs =
     (\<not> (\<exists>arg \<in> set xs. strength arg > 1 / 2 \<and>
           (\<exists>attacker \<in> set args.
              (id' attacker, id' arg) \<in> set atk \<and> strength attacker \<le> strength arg)))"
  unfolding check_low_iff by (auto simp: get_attackers_iff)

text \<open>
  An explanation with one argument for the label and one attacker of the same strength:
  unfaithful at top confidence, faithful at high confidence.
\<close>

lemma equal_strength_top:
  "\<not> compute_dialectical_faithfulness
        [\<lparr>id' = 1, conclusion = ''y'', strength = 3 / 5\<rparr>,
         \<lparr>id' = 2, conclusion = ''n'', strength = 3 / 5\<rparr>]
        [(2, 1)] [] [\<lparr>id' = 1, conclusion = ''y'', strength = 3 / 5\<rparr>]
        (9 / 10) (7 / 10) ''y'' (19 / 20)"
  by (simp add: compute_dialectical_faithfulness_def get_attackers_def
      get_dialectical_strength_def)

lemma equal_strength_high:
  "compute_dialectical_faithfulness
        [\<lparr>id' = 1, conclusion = ''y'', strength = 3 / 5\<rparr>,
         \<lparr>id' = 2, conclusion = ''n'', strength = 3 / 5\<rparr>]
        [(2, 1)] [] [\<lparr>id' = 1, conclusion = ''y'', strength = 3 / 5\<rparr>]
        (9 / 10) (7 / 10) ''y'' (4 / 5)"
  by (simp add: compute_dialectical_faithfulness_def get_attackers_def
      get_dialectical_strength_def)

text \<open>
  C3. With \<open>model_confidence \<ge> top_confidence\<close> the result is true iff no attacker of an
  argument of \<open>arguments_for_predicted\<close> has strength \<open>\<ge>\<close> that argument's strength;
  with \<open>high_confidence \<le> model_confidence < top_confidence\<close> it is true iff no attacker
  has strength \<open>>\<close> the attacked argument's strength. An attacker of \<open>arg\<close> is an
  argument of \<open>args\<close> whose identifier forms an attack edge with the identifier of
  \<open>arg\<close>. There is an input with an attacker as strong as the argument it attacks on
  which the top tier answers false and the high tier answers true.
\<close>

theorem faithfulness_top_high_tiers:
  "(top_confidence \<le> model_confidence \<longrightarrow>
      compute_dialectical_faithfulness args atk supp args_y_hat
          top_confidence high_confidence label model_confidence =
        (\<forall>arg \<in> set (filter (\<lambda>a. conclusion a = label) args_y_hat).
           \<forall>attacker \<in> set args.
             (id' attacker, id' arg) \<in> set atk \<longrightarrow> \<not> strength attacker \<ge> strength arg))
   \<and> (high_confidence \<le> model_confidence \<and> model_confidence < top_confidence \<longrightarrow>
      compute_dialectical_faithfulness args atk supp args_y_hat
          top_confidence high_confidence label model_confidence =
        (\<forall>arg \<in> set (filter (\<lambda>a. conclusion a = label) args_y_hat).
           \<forall>attacker \<in> set args.
             (id' attacker, id' arg) \<in> set atk \<longrightarrow> \<not> strength attacker > strength arg))
   \<and> (\<exists>args' atk' sup' yhat' top' high' label' c_top c_high arg attacker.
         arg \<in> set (filter (\<lambda>a. conclusion a = label') yhat')
       \<and> attacker \<in> set args' \<and> (id' attacker, id' arg) \<in> set atk'
       \<and> strength attacker = strength arg
       \<and> top' \<le> c_top \<and> high' \<le> c_high \<and> c_high < top'
       \<and> \<not> compute_dialectical_faithfulness args' atk' sup' yhat' top' high' label' c_top
       \<and> compute_dialectical_faithfulness args' atk' sup' yhat' top' high' label' c_high)"
proof (intro conjI impI)
  assume "top_confidence \<le> model_confidence"
  then show "compute_dialectical_faithfulness args atk supp args_y_hat
          top_confidence high_confidence label model_confidence =
        (\<forall>arg \<in> set (filter (\<lambda>a. conclusion a = label) args_y_hat).
           \<forall>attacker \<in> set args.
             (id' attacker, id' arg) \<in> set atk \<longrightarrow> \<not> strength attacker \<ge> strength arg)"
    by (simp only: compute_dialectical_faithfulness_def Let_def check_top_edges if_True)
next
  assume "high_confidence \<le> model_confidence \<and> model_confidence < top_confidence"
  then have "\<not> top_confidence \<le> model_confidence" "high_confidence \<le> model_confidence"
    by simp_all
  then show "compute_dialectical_faithfulness args atk supp args_y_hat
          top_confidence high_confidence label model_confidence =
        (\<forall>arg \<in> set (filter (\<lambda>a. conclusion a = label) args_y_hat).
           \<forall>attacker \<in> set args.
             (id' attacker, id' arg) \<in> set atk \<longrightarrow> \<not> strength attacker > strength arg)"
    by (simp only: compute_dialectical_faithfulness_def Let_def check_high_edges if_True if_False)
next
  let ?a = "\<lparr>id' = 1, conclusion = ''y'', strength = 3 / 5\<rparr>"
  let ?b = "\<lparr>id' = 2, conclusion = ''n'', strength = 3 / 5\<rparr>"
  have "?a \<in> set (filter (\<lambda>a. conclusion a = ''y'') [?a])
      \<and> ?b \<in> set [?a, ?b] \<and> (id' ?b, id' ?a) \<in> set [(2, 1)]
      \<and> strength ?b = strength ?a
      \<and> (9 / 10 :: rat) \<le> 19 / 20 \<and> (7 / 10 :: rat) \<le> 4 / 5 \<and> (4 / 5 :: rat) < 9 / 10
      \<and> \<not> compute_dialectical_faithfulness [?a, ?b] [(2, 1)] [] [?a]
            (9 / 10) (7 / 10) ''y'' (19 / 20)
      \<and> compute_dialectical_faithfulness [?a, ?b] [(2, 1)] [] [?a]
            (9 / 10) (7 / 10) ''y'' (4 / 5)"
    using equal_strength_top equal_strength_high by simp
  then show "\<exists>args' atk' sup' yhat' top' high' label' c_top c_high arg attacker.
         arg \<in> set (filter (\<lambda>a. conclusion a = label') yhat')
       \<and> attacker \<in> set args' \<and> (id' attacker, id' arg) \<in> set atk'
       \<and> strength attacker = strength arg
       \<and> top' \<le> c_top \<and> high' \<le> c_high \<and> c_high < top'
       \<and> \<not> compute_dialectical_faithfulness args' atk' sup' yhat' top' high' label' c_top
       \<and> compute_dialectical_faithfulness args' atk' sup' yhat' top' high' label' c_high"
    by blast
qed

theorem faithfulness_top_high_tiers_witness:
  "(9 / 10 :: rat) \<le> 19 / 20
   \<and> \<not> compute_dialectical_faithfulness
        [\<lparr>id' = 1, conclusion = ''y'', strength = 3 / 5\<rparr>,
         \<lparr>id' = 2, conclusion = ''n'', strength = 4 / 5\<rparr>]
        [(2, 1)] [] [\<lparr>id' = 1, conclusion = ''y'', strength = 3 / 5\<rparr>]
        (9 / 10) (7 / 10) ''y'' (19 / 20)
   \<and> (7 / 10 :: rat) \<le> 4 / 5 \<and> (4 / 5 :: rat) < 9 / 10
   \<and> compute_dialectical_faithfulness
        [\<lparr>id' = 1, conclusion = ''y'', strength = 3 / 5\<rparr>,
         \<lparr>id' = 2, conclusion = ''n'', strength = 2 / 5\<rparr>]
        [(2, 1)] [] [\<lparr>id' = 1, conclusion = ''y'', strength = 3 / 5\<rparr>]
        (9 / 10) (7 / 10) ''y'' (4 / 5)"
  using faithfulness_top_high_tiers
    [of "9 / 10" "19 / 20"
        "[\<lparr>id' = 1, conclusion = ''y'', strength = 3 / 5\<rparr>,
          \<lparr>id' = 2, conclusion = ''n'', strength = 4 / 5\<rparr>]"
        "[(2, 1)]" "[]" "[\<lparr>id' = 1, conclusion = ''y'', strength = 3 / 5\<rparr>]"
        "7 / 10" "''y''"]
    faithfulness_top_high_tiers
    [of "9 / 10" "4 / 5"
        "[\<lparr>id' = 1, conclusion = ''y'', strength = 3 / 5\<rparr>,
          \<lparr>id' = 2, conclusion = ''n'', strength = 2 / 5\<rparr>]"
        "[(2, 1)]" "[]" "[\<lparr>id' = 1, conclusion = ''y'', strength = 3 / 5\<rparr>]"
        "7 / 10" "''y''"]
  by simp

text \<open>
  C4. With \<open>model_confidence < high_confidence\<close> only the arguments of
  \<open>arguments_for_predicted\<close> with strength \<open>> 0.5\<close> are checked, and the result is false
  iff one of them has an attacker with strength \<open>\<le>\<close> its own, an attacker of \<open>arg\<close>
  being an argument of \<open>args\<close> whose identifier forms an attack edge with the identifier
  of \<open>arg\<close>. In particular, when every argument of \<open>arguments_for_predicted\<close> has
  strength \<open>\<le> 0.5\<close> (for instance exactly \<open>0.5\<close>) the result is true whatever the
  attackers are.
\<close>

theorem faithfulness_low_tier:
  "model_confidence < high_confidence \<Longrightarrow> high_confidence \<le> top_confidence \<Longrightarrow>
     (compute_dialectical_faithfulness args atk supp args_y_hat
          top_confidence high_confidence label model_confidence = False
        \<longleftrightarrow> (\<exists>arg \<in> set (filter (\<lambda>a. conclusion a = label) args_y_hat).
               strength arg > 1 / 2 \<and>
               (\<exists>attacker \<in> set args.
                  (id' attacker, id' arg) \<in> set atk \<and> strength attacker \<le> strength arg)))
   \<and> ((\<forall>arg \<in> set (filter (\<lambda>a. conclusion a = label) args_y_hat). strength arg \<le> 1 / 2)
        \<longrightarrow> compute_dialectical_faithfulness args atk supp args_y_hat
              top_confidence high_confidence label model_confidence)"
proof -
  assume "model_confidence < high_confidence" "high_confidence \<le> top_confidence"
  then have c: "\<not> top_confidence \<le> model_confidence" "\<not> high_confidence \<le> model_confidence"
    by simp_all
  have eq: "compute_dialectical_faithfulness args atk supp args_y_hat
          top_confidence high_confidence label model_confidence =
        (\<not> (\<exists>arg \<in> set (filter (\<lambda>a. conclusion a = label) args_y_hat).
               strength arg > 1 / 2 \<and>
               (\<exists>attacker \<in> set args.
                  (id' attacker, id' arg) \<in> set atk \<and> strength attacker \<le> strength arg)))"
    using c by (simp only: compute_dialectical_faithfulness_def Let_def check_low_edges if_False)
  show ?thesis
    unfolding eq by (auto simp: not_less)
qed

theorem faithfulness_low_tier_witness:
  "(2 / 5 :: rat) < 7 / 10 \<and> (7 / 10 :: rat) \<le> 9 / 10
   \<and> compute_dialectical_faithfulness
        [\<lparr>id' = 1, conclusion = ''y'', strength = 1 / 2\<rparr>,
         \<lparr>id' = 2, conclusion = ''n'', strength = 1 / 5\<rparr>]
        [(2, 1)] [] [\<lparr>id' = 1, conclusion = ''y'', strength = 1 / 2\<rparr>]
        (9 / 10) (7 / 10) ''y'' (2 / 5)
   \<and> \<not> compute_dialectical_faithfulness
        [\<lparr>id' = 1, conclusion = ''y'', strength = 3 / 5\<rparr>,
         \<lparr>id' = 2, conclusion = ''n'', strength = 1 / 5\<rparr>]
        [(2, 1)] [] [\<lparr>id' = 1, conclusion = ''y'', strength = 3 / 5\<rparr>]
        (9 / 10) (7 / 10) ''y'' (2 / 5)"
  using faithfulness_low_tier
    [of "2 / 5" "7 / 10" "9 / 10"
        "[\<lparr>id' = 1, conclusion = ''y'', strength = 1 / 2\<rparr>,
          \<lparr>id' = 2, conclusion = ''n'', strength = 1 / 5\<rparr>]"
        "[(2, 1)]" "[]" "[\<lparr>id' = 1, conclusion = ''y'', strength = 1 / 2\<rparr>]" "''y''"]
    faithfulness_low_tier
    [of "2 / 5" "7 / 10" "9 / 10"
        "[\<lparr>id' = 1, conclusion = ''y'', strength = 3 / 5\<rparr>,
          \<lparr>id' = 2, conclusion = ''n'', strength = 1 / 5\<rparr>]"
        "[(2, 1)]" "[]" "[\<lparr>id' = 1, conclusion = ''y'', strength = 3 / 5\<rparr>]" "''y''"]
  by simp

text \<open>
  C9. The result of \<open>compute_dialectical_faithfulness\<close> does not depend on
  \<open>support_relations\<close>: two calls that differ only there return the same boolean.
\<close>

theorem faithfulness_ignores_support:
  "compute_dialectical_faithfulness args atk sup1 args_y_hat
       top_confidence high_confidence label model_confidence
   = compute_dialectical_faithfulness args atk sup2 args_y_hat
       top_confidence high_confidence label model_confidence"
  by (simp add: compute_dialectical_faithfulness_def)

theorem faithfulness_ignores_support_witness:
  "compute_dialectical_faithfulness
        [\<lparr>id' = 1, conclusion = ''y'', strength = 3 / 5\<rparr>,
         \<lparr>id' = 2, conclusion = ''n'', strength = 3 / 5\<rparr>]
        [(2, 1)] [(1, 2), (2, 2)] [\<lparr>id' = 1, conclusion = ''y'', strength = 3 / 5\<rparr>]
        (9 / 10) (7 / 10) ''y'' (4 / 5)
   = compute_dialectical_faithfulness
        [\<lparr>id' = 1, conclusion = ''y'', strength = 3 / 5\<rparr>,
         \<lparr>id' = 2, conclusion = ''n'', strength = 3 / 5\<rparr>]
        [(2, 1)] [] [\<lparr>id' = 1, conclusion = ''y'', strength = 3 / 5\<rparr>]
        (9 / 10) (7 / 10) ''y'' (4 / 5)"
  by (rule faithfulness_ignores_support)

section \<open>Repeated attack pairs\<close>

lemma faithfulness_atk_set:
  "set atk = set atk' \<Longrightarrow>
     compute_dialectical_faithfulness args atk supp yhat top_confidence high_confidence label model_confidence
       = compute_dialectical_faithfulness args atk' supp yhat top_confidence high_confidence label model_confidence"
  by (simp add: compute_dialectical_faithfulness_def check_top_iff check_high_iff
      check_low_iff get_attackers_def)

lemma length_attackers_of: "length (attackers_of atk a) = count_list (map snd atk) a"
  by (induction atk) (auto simp: attackers_of_def)

text \<open>
  C10. \<open>get_attackers\<close> filters the list \<open>args\<close>: its result is a subsequence of
  \<open>args\<close> (each entry of \<open>args\<close> at most once, in the order of \<open>args\<close>), and repeating
  an attack pair of \<open>attack_relations\<close> changes neither this result nor the result of
  \<open>compute_dialectical_faithfulness\<close>. In \<open>compute_dialectical_acceptability\<close> the
  list of attackers of an argument has one entry per attack pair, repeated pairs included,
  and repeating a pair changes the score (here from \<open>1/6\<close> to \<open>2/9\<close>).
\<close>

theorem get_attackers_once_per_argument:
  "subseq (get_attackers args atk arg_id) args
   \<and> (distinct args \<longrightarrow> distinct (get_attackers args atk arg_id))
   \<and> (e \<in> set atk \<longrightarrow>
        get_attackers args (e # atk) arg_id = get_attackers args atk arg_id
      \<and> compute_dialectical_faithfulness args (e # atk) supp args_y_hat top_confidence high_confidence label model_confidence
          = compute_dialectical_faithfulness args atk supp args_y_hat top_confidence high_confidence label model_confidence)
   \<and> (edges_known args' atk' \<and> a \<in> set args' \<longrightarrow>
        (\<exists>af flag. build_attacks args' atk' yhat' (empty_framework (length args')) False
                     = Inr (af, flag)
                 \<and> map_option length (af (first_index args' a))
                     = Some (count_list (map snd atk') a)))
   \<and> compute_dialectical_acceptability [''A'', ''B'', ''C'']
        [(''B'', ''A''), (''C'', ''A''), (''A'', ''B'')] [''A''] = Inr (1 / 6)
   \<and> compute_dialectical_acceptability [''A'', ''B'', ''C'']
        [(''B'', ''A''), (''B'', ''A''), (''C'', ''A''), (''A'', ''B'')] [''A''] = Inr (2 / 9)"
proof (intro conjI impI)
  show "subseq (get_attackers args atk arg_id) args"
    by (simp add: get_attackers_def)
  show "distinct (get_attackers args atk arg_id)" if "distinct args"
    using that by (simp add: get_attackers_def)
  show "get_attackers args (e # atk) arg_id = get_attackers args atk arg_id" if "e \<in> set atk"
    using that by (simp add: get_attackers_def insert_absorb)
  show "compute_dialectical_faithfulness args (e # atk) supp args_y_hat top_confidence high_confidence label model_confidence
          = compute_dialectical_faithfulness args atk supp args_y_hat top_confidence high_confidence label model_confidence"
    if "e \<in> set atk"
    using that by (intro faithfulness_atk_set) auto
  show "\<exists>af flag. build_attacks args' atk' yhat' (empty_framework (length args')) False
                     = Inr (af, flag)
                 \<and> map_option length (af (first_index args' a))
                     = Some (count_list (map snd atk') a)"
    if "edges_known args' atk' \<and> a \<in> set args'"
    using that
    by (simp add: build_attacks_known attackers_framework_at length_attackers_of)
  show "compute_dialectical_acceptability [''A'', ''B'', ''C'']
        [(''B'', ''A''), (''C'', ''A''), (''A'', ''B'')] [''A''] = Inr (1 / 6)"
    by (simp add: compute_dialectical_acceptability_def empty_framework_def)
  show "compute_dialectical_acceptability [''A'', ''B'', ''C'']
        [(''B'', ''A''), (''B'', ''A''), (''C'', ''A''), (''A'', ''B'')] [''A''] = Inr (2 / 9)"
    by (simp add: compute_dialectical_acceptability_def empty_framework_def)
qed

theorem get_attackers_once_per_argument_witness:
  "((2 :: int, 1 :: int) \<in> set [(2, 1), (3, 1)]
     \<and> get_attackers
          [\<lparr>id' = 1, conclusion = ''y'', strength = 3 / 5\<rparr>,
           \<lparr>id' = 3, conclusion = ''n'', strength = 1 / 5\<rparr>,
           \<lparr>id' = 2, conclusion = ''n'', strength = 2 / 5\<rparr>]
          [(2, 1), (2, 1), (3, 1)] 1
        = get_attackers
          [\<lparr>id' = 1, conclusion = ''y'', strength = 3 / 5\<rparr>,
           \<lparr>id' = 3, conclusion = ''n'', strength = 1 / 5\<rparr>,
           \<lparr>id' = 2, conclusion = ''n'', strength = 2 / 5\<rparr>]
          [(2, 1), (3, 1)] 1)
   \<and> (edges_known [''A'', ''B''] [(''B'', ''A''), (''B'', ''A'')] \<and> ''A'' \<in> set [''A'', ''B'']
     \<and> (\<exists>af flag. build_attacks [''A'', ''B''] [(''B'', ''A''), (''B'', ''A'')] [''A'']
                     (empty_framework (length [''A'', ''B''])) False = Inr (af, flag)
           \<and> map_option length (af (first_index [''A'', ''B''] ''A''))
               = Some (count_list (map snd [(''B'', ''A''), (''B'', ''A'')]) ''A'')))"
proof -
  note t = get_attackers_once_per_argument
    [of "[\<lparr>id' = 1, conclusion = ''y'', strength = 3 / 5\<rparr>,
          \<lparr>id' = 3, conclusion = ''n'', strength = 1 / 5\<rparr>,
          \<lparr>id' = 2, conclusion = ''n'', strength = 2 / 5\<rparr>]"
        "[(2, 1), (3, 1)]" 1 "(2, 1)" "[]" "[]" 1 0 "''y''" 1
        "[''A'', ''B'']" "[(''B'', ''A''), (''B'', ''A'')]" "''A''" "[''A'']"]
  have h1: "(2 :: int, 1 :: int) \<in> set [(2, 1), (3, 1)]" by simp
  have h2: "edges_known [''A'', ''B''] [(''B'', ''A''), (''B'', ''A'')] \<and> ''A'' \<in> set [''A'', ''B'']"
    by (simp add: edges_known_def)
  from t h1 h2 show ?thesis by blast
qed

end
